theory Spec2Isabelle
  imports Main
begin

section \<open>Python strings\<close>

text \<open>
  A Python \<open>str\<close> is modelled as a \<open>string\<close> whose characters are the code points
  below 256. The character classes below are those of \<open>str.isspace\<close>, \<open>str.lower\<close>
  and of the \<open>re\<close> module's \<open>\s\<close>, \<open>\d\<close>, \<open>\w\<close> on that range.
\<close>

definition ord :: "char \<Rightarrow> nat" where
  "ord c = of_char c"

definition in_range :: "char \<Rightarrow> char \<Rightarrow> char \<Rightarrow> bool" where
  "in_range a b c = (ord a \<le> ord c \<and> ord c \<le> ord b)"

definition isspace :: "char \<Rightarrow> bool" where
  "isspace c = ((9 \<le> ord c \<and> ord c \<le> 13) \<or> (28 \<le> ord c \<and> ord c \<le> 32)
                 \<or> ord c = 133 \<or> ord c = 160)"

definition isdigit :: "char \<Rightarrow> bool" where
  "isdigit c = in_range (CHR ''0'') (CHR ''9'') c"

definition isword :: "char \<Rightarrow> bool" where
  "isword c = (isdigit c \<or> in_range (CHR ''A'') (CHR ''Z'') c \<or> in_range (CHR ''a'') (CHR ''z'') c
                \<or> c = CHR ''_''
                \<or> ord c \<in> {170, 178, 179, 181, 185, 186, 188, 189, 190}
                \<or> (192 \<le> ord c \<and> ord c \<noteq> 215 \<and> ord c \<noteq> 247))"

definition lower_char :: "char \<Rightarrow> char" where
  "lower_char c =
     (if in_range (CHR ''A'') (CHR ''Z'') c \<or> (192 \<le> ord c \<and> ord c \<le> 222 \<and> ord c \<noteq> 215)
      then char_of (ord c + 32) else c)"

definition lower :: "string \<Rightarrow> string" where
  "lower s = map lower_char s"

definition strip :: "string \<Rightarrow> string" where
  "strip s = rev (dropWhile isspace (rev (dropWhile isspace s)))"

text \<open>\<open>startswith s pre\<close> is \<open>s.startswith(pre)\<close>; \<open>str_in t s\<close> is \<open>t in s\<close>.\<close>

definition startswith :: "string \<Rightarrow> string \<Rightarrow> bool" where
  "startswith s pre = (take (length pre) s = pre)"

fun str_in :: "string \<Rightarrow> string \<Rightarrow> bool" where
  "str_in t [] = (t = [])"
| "str_in t (c # cs) = (startswith (c # cs) t \<or> str_in t cs)"

text \<open>
  \<open>split s sep\<close> is \<open>s.split(sep)\<close> for a non-empty separator: the text is cut at
  each occurrence of \<open>sep\<close> found scanning from the left, and the scan resumes behind
  the occurrence. (Python raises \<open>ValueError\<close> for an empty separator; the parser only
  passes the literals \<open>'\n\n'\<close> and \<open>'\n'\<close>.)
\<close>

function split :: "string \<Rightarrow> string \<Rightarrow> string list" where
  "split [] sep = [[]]"
| "split (c # cs) sep =
     (if sep \<noteq> [] \<and> startswith (c # cs) sep
      then [] # split (drop (length sep) (c # cs)) sep
      else (let r = split cs sep in (c # hd r) # tl r))"
  by pat_completeness auto
termination
  by (relation "measure (\<lambda>(s, sep). length s)") auto

text \<open>\<open>join sep xs\<close> is \<open>sep.join(xs)\<close>.\<close>

fun join :: "string \<Rightarrow> string list \<Rightarrow> string" where
  "join sep [] = []"
| "join sep [x] = x"
| "join sep (x # y # ys) = x @ sep @ join sep (y # ys)"

section \<open>Regular expressions\<close>

text \<open>
  The fragment of Python's \<open>re\<close> syntax that the parser's patterns use. Repetition
  is only ever applied to a single character class, and \<open>?\<close> to a group.
\<close>

datatype regex =
    Lit string
  | Cls "char \<Rightarrow> bool"
  | Rep "char \<Rightarrow> bool" nat "nat option"
  | Seq regex regex
  | Alt regex regex
  | Opt regex
  | WordB

text \<open>
  \<open>ends r s i\<close> lists the positions at which a match of \<open>r\<close> that starts at position
  \<open>i\<close> of \<open>s\<close> can end, in the order in which the backtracking matcher tries them:
  the left alternative first, a greedy repetition from its longest run down to its
  minimum, an optional group before its omission. The head of the list is the match
  the engine reports at \<open>i\<close>.
\<close>

definition word_at :: "string \<Rightarrow> nat \<Rightarrow> bool" where
  "word_at s i = (i < length s \<and> isword (s ! i))"

definition boundary :: "string \<Rightarrow> nat \<Rightarrow> bool" where
  "boundary s i = ((i > 0 \<and> word_at s (i - 1)) \<noteq> word_at s i)"

primrec ends :: "regex \<Rightarrow> string \<Rightarrow> nat \<Rightarrow> nat list" where
  "ends (Lit l) s i = (if startswith (drop i s) l then [i + length l] else [])"
| "ends (Cls P) s i = (if i < length s \<and> P (s ! i) then [Suc i] else [])"
| "ends (Rep P m n) s i =
     (let run = length (takeWhile P (drop i s));
          k = (case n of None \<Rightarrow> run | Some n' \<Rightarrow> min run n')
      in if k < m then [] else map (\<lambda>j. i + j) (rev [m ..< Suc k]))"
| "ends (Seq a b) s i = concat (map (ends b s) (ends a s i))"
| "ends (Alt a b) s i = ends a s i @ ends b s i"
| "ends (Opt a) s i = ends a s i @ [i]"
| "ends WordB s i = (if boundary s i then [i] else [])"

fun cat :: "regex list \<Rightarrow> regex" where
  "cat [] = Lit []"
| "cat [r] = r"
| "cat (r # rs) = Seq r (cat rs)"

fun alts :: "regex list \<Rightarrow> regex" where
  "alts [] = Cls (\<lambda>c. False)"
| "alts [r] = r"
| "alts (r # rs) = Alt r (alts rs)"

text \<open>
  \<open>search r s pos\<close> is \<open>re.compile(r).search(s, pos)\<close>: the span of the match at the
  first start position, from \<open>pos\<close> on, at which the pattern matches.
  \<open>match_group s m\<close> is \<open>m.group()\<close>.
\<close>

definition search :: "regex \<Rightarrow> string \<Rightarrow> nat \<Rightarrow> (nat \<times> nat) option" where
  "search r s pos =
     (case List.find (\<lambda>i. ends r s i \<noteq> []) [pos ..< Suc (length s)] of
        None \<Rightarrow> None
      | Some i \<Rightarrow> Some (i, hd (ends r s i)))"

definition match_group :: "string \<Rightarrow> nat \<times> nat \<Rightarrow> string" where
  "match_group s m = take (snd m - fst m) (drop (fst m) s)"

text \<open>
  \<open>finditer r s pos\<close> lists the spans of the non-overlapping matches from \<open>pos\<close> on,
  left to right, each search resuming where the previous match ended;
  \<open>findall r s\<close> is \<open>re.findall(r, s)\<close> for a pattern without capturing groups.
  After an empty match Python rules out another empty match at the same place; the
  model steps one character forward. The date pattern, the only one passed to
  \<open>findall\<close>, never matches the empty string.
\<close>

function finditer :: "regex \<Rightarrow> string \<Rightarrow> nat \<Rightarrow> (nat \<times> nat) list" where
  "finditer r s pos =
     (case search r s pos of
        None \<Rightarrow> []
      | Some (i, e) \<Rightarrow> (i, e) # finditer r s (if i < e then e else Suc i))"
  by pat_completeness auto
termination
proof (relation "measure (\<lambda>(r, s, pos). Suc (length s) - pos)")
  show "wf (measure (\<lambda>(r, s, pos). Suc (length s) - pos))" by simp
next
  fix r :: regex and s :: string and pos :: nat and x2 :: "nat \<times> nat" and i e :: nat
  assume a: "search r s pos = Some x2" and b: "(i, e) = x2"
  from a b have "List.find (\<lambda>j. ends r s j \<noteq> []) [pos ..< Suc (length s)] = Some i"
    by (auto simp del: upt_Suc simp: search_def split: option.splits)
  then have "i \<in> set [pos ..< Suc (length s)]"
    unfolding find_Some_iff by (metis nth_mem)
  then have "pos \<le> i" "i < Suc (length s)" by (simp_all del: upt_Suc)
  then show "((r, s, if i < e then e else Suc i), (r, s, pos))
        \<in> measure (\<lambda>(r, s, pos). Suc (length s) - pos)"
    by auto
qed

declare finditer.simps [simp del]

definition findall :: "regex \<Rightarrow> string \<Rightarrow> string list" where
  "findall r s = map (match_group s) (finditer r s 0)"

section \<open>The parser's patterns\<close>

text \<open>\<open>one_of cs\<close> is the bracket class listing the characters \<open>cs\<close>.\<close>

definition one_of :: "string \<Rightarrow> char \<Rightarrow> bool" where
  "one_of cs c = (c \<in> set cs)"

definition alnum_ascii :: "char \<Rightarrow> bool" where
  "alnum_ascii c = (in_range (CHR ''A'') (CHR ''Z'') c \<or> in_range (CHR ''a'') (CHR ''z'') c
                     \<or> in_range (CHR ''0'') (CHR ''9'') c)"

text \<open>\<^verbatim>\<open>\b[A-Za-z0-9._%+-]+@[A-Za-z0-9.-]+\.[A-Z|a-z]{2,}\b\<close>\<close>

definition EMAIL_PATTERN :: regex where
  "EMAIL_PATTERN = cat
     [WordB,
      Rep (\<lambda>c. alnum_ascii c \<or> one_of ''._%+-'' c) 1 None,
      Lit ''@'',
      Rep (\<lambda>c. alnum_ascii c \<or> one_of ''.-'' c) 1 None,
      Lit ''.'',
      Rep (\<lambda>c. in_range (CHR ''A'') (CHR ''Z'') c \<or> c = CHR ''|''
                  \<or> in_range (CHR ''a'') (CHR ''z'') c) 2 None,
      WordB]"

text \<open>\<^verbatim>\<open>(?:\+\d{1,3}[-.\s]?)?\(?\d{3}\)?[-.\s]?\d{3}[-.\s]?\d{4}\<close>\<close>

definition phone_sep :: "char \<Rightarrow> bool" where
  "phone_sep c = (one_of ''-.'' c \<or> isspace c)"

definition PHONE_PATTERN :: regex where
  "PHONE_PATTERN = cat
     [Opt (cat [Lit ''+'', Rep isdigit 1 (Some 3), Opt (Cls phone_sep)]),
      Opt (Lit ''(''),
      Rep isdigit 3 (Some 3),
      Opt (Lit '')''),
      Opt (Cls phone_sep),
      Rep isdigit 3 (Some 3),
      Opt (Cls phone_sep),
      Rep isdigit 4 (Some 4)]"

text \<open>\<^verbatim>\<open>linkedin\.com/in/[\w-]+\<close> and \<^verbatim>\<open>github\.com/[\w-]+\<close>\<close>

definition LINKEDIN_PATTERN :: regex where
  "LINKEDIN_PATTERN = Seq (Lit ''linkedin.com/in/'') (Rep (\<lambda>c. isword c \<or> c = CHR ''-'') 1 None)"

definition GITHUB_PATTERN :: regex where
  "GITHUB_PATTERN = Seq (Lit ''github.com/'') (Rep (\<lambda>c. isword c \<or> c = CHR ''-'') 1 None)"

text \<open>
  \<^verbatim>\<open>(?:Jan(?:uary)?|Feb(?:ruary)?|Mar(?:ch)?|Apr(?:il)?|May|Jun(?:e)?|Jul(?:y)?|Aug(?:ust)?|Sep(?:tember)?|Oct(?:ober)?|Nov(?:ember)?|Dec(?:ember)?)\s+\d{4}\<close>
\<close>

definition month :: "string \<Rightarrow> string \<Rightarrow> regex" where
  "month abbr rest = Seq (Lit abbr) (Opt (Lit rest))"

definition DATE_PATTERN :: regex where
  "DATE_PATTERN = cat
     [alts [month ''Jan'' ''uary'', month ''Feb'' ''ruary'', month ''Mar'' ''ch'',
            month ''Apr'' ''il'', Lit ''May'', month ''Jun'' ''e'', month ''Jul'' ''y'',
            month ''Aug'' ''ust'', month ''Sep'' ''tember'', month ''Oct'' ''ober'',
            month ''Nov'' ''ember'', month ''Dec'' ''ember''],
      Rep isspace 1 None,
      Rep isdigit 4 (Some 4)]"

text \<open>The pattern of the experience extractor: \<^verbatim>\<open>(19|20)\d{2}|present|current\<close>\<close>

definition TRIGGER_PATTERN :: regex where
  "TRIGGER_PATTERN = alts
     [Seq (Alt (Lit ''19'') (Lit ''20'')) (Rep isdigit 2 (Some 2)),
      Lit ''present'',
      Lit ''current'']"

definition EDUCATION_TERMS :: "string list" where
  "EDUCATION_TERMS =
     [''bachelor'', ''master'', ''phd'', ''doctorate'', ''bs'', ''ms'', ''ba'', ''ma'',
      ''b.tech'', ''m.tech'', ''b.e.'', ''m.e.'', ''b.sc'', ''m.sc'',
      ''university'', ''college'', ''institute'', ''school'']"

section \<open>Data model\<close>

text \<open>
  The named-entity recogniser is a collaborator outside the repository. A call
  \<open>nlp text\<close> either fails with a fault of type \<open>'e\<close> or yields the entities of the
  text in the order it produced them, each with its text and its label.
\<close>

record ent =
  ent_text :: string
  label :: string

type_synonym 'e nlp = "string \<Rightarrow> 'e + ent list"

record contact_info =
  email :: "string option"
  phone :: "string option"
  linkedin :: "string option"
  github :: "string option"
  location :: "string option"

record education_info =
  degree :: "string option"
  institution :: "string option"
  graduation_date :: "string option"
  gpa :: "string option"

record experience =
  title :: "string option"
  company :: "string option"
  dates :: "string list"
  description :: "string list"

record metadata =
  filename :: string
  parsed_date :: string
  parser_version :: string

text \<open>
  The result of a parse is a dictionary from section names to section values, kept as
  an association list in insertion order.
\<close>

datatype section_value =
    ContactInfo contact_info
  | Education "education_info list"
  | Experience "experience list"
  | Metadata metadata

type_synonym parsed_data = "(string \<times> section_value) list"

text \<open>
  The exceptions that can arise inside \<open>parse_resume\<close>: the \<open>ValueError\<close> it raises
  itself on empty text, and a fault of the entity recogniser.
\<close>

datatype 'e error = NoTextExtracted | NlpFault 'e

text \<open>Python truthiness of an optional string: \<open>None\<close> and \<open>''\<close> are false.\<close>

fun truthy :: "string option \<Rightarrow> bool" where
  "truthy None = False"
| "truthy (Some s) = (s \<noteq> [])"

text \<open>The text of the first entity whose label is among \<open>labels\<close>, if there is one.\<close>

definition first_ent :: "string list \<Rightarrow> ent list \<Rightarrow> string option" where
  "first_ent labels ents = map_option ent_text (List.find (\<lambda>e. label e \<in> set labels) ents)"

section \<open>The extractors\<close>

definition first_match :: "regex \<Rightarrow> string \<Rightarrow> string option" where
  "first_match r text = map_option (match_group text) (search r text 0)"

definition extract_contact_info :: "'e nlp \<Rightarrow> string \<Rightarrow> 'e + contact_info" where
  "extract_contact_info nlp text =
     (let email_match = first_match EMAIL_PATTERN text;
          phone_match = first_match PHONE_PATTERN text;
          linkedin_match = first_match LINKEDIN_PATTERN text;
          github_match = first_match GITHUB_PATTERN text
      in case nlp (take 1000 text) of
           Inl e \<Rightarrow> Inl e
         | Inr ents \<Rightarrow>
             Inr \<lparr>email = email_match, phone = phone_match, linkedin = linkedin_match,
                  github = github_match, location = first_ent [''GPE'', ''LOC''] ents\<rparr>)"

text \<open>\<open>any(term in s.lower() for term in self.EDUCATION_TERMS)\<close>\<close>

definition has_education_term :: "string \<Rightarrow> bool" where
  "has_education_term s = list_ex (\<lambda>term. str_in term (lower s)) EDUCATION_TERMS"

text \<open>
  The body of the education loop for one qualified paragraph: the entry built from
  it, or the recogniser's fault.
\<close>

definition education_entry :: "'e nlp \<Rightarrow> string \<Rightarrow> 'e + education_info" where
  "education_entry nlp paragraph =
     (let ds = findall DATE_PATTERN paragraph;
          graduation = (if ds \<noteq> [] then Some (last ds) else None)
      in case nlp paragraph of
           Inl e \<Rightarrow> Inl e
         | Inr ents \<Rightarrow>
             Inr \<lparr>degree = map_option strip (List.find has_education_term (split paragraph [CHR 0x0A])),
                  institution = first_ent [''ORG''] ents,
                  graduation_date = graduation,
                  gpa = None\<rparr>)"

fun education_loop :: "'e nlp \<Rightarrow> education_info list \<Rightarrow> string list \<Rightarrow> 'e + education_info list" where
  "education_loop nlp education_list [] = Inr education_list"
| "education_loop nlp education_list (paragraph # rest) =
     (if has_education_term paragraph then
        (case education_entry nlp paragraph of
           Inl e \<Rightarrow> Inl e
         | Inr info \<Rightarrow>
             if truthy (degree info) \<or> truthy (institution info)
             then education_loop nlp (education_list @ [info]) rest
             else education_loop nlp education_list rest)
      else education_loop nlp education_list rest)"

definition paragraphs :: "string \<Rightarrow> string list" where
  "paragraphs text = split text [CHR 0x0A, CHR 0x0A]"

definition extract_education :: "'e nlp \<Rightarrow> string \<Rightarrow> 'e + education_info list" where
  "extract_education nlp text = education_loop nlp [] (paragraphs text)"

text \<open>\<open>re.search(r'(19|20)\d{2}|present|current', paragraph.lower())\<close>\<close>

definition is_trigger :: "string \<Rightarrow> bool" where
  "is_trigger paragraph = (search TRIGGER_PATTERN (lower paragraph) 0 \<noteq> None)"

text \<open>The entry opened by a trigger paragraph, or the recogniser's fault.\<close>

definition new_experience :: "'e nlp \<Rightarrow> string \<Rightarrow> 'e + experience" where
  "new_experience nlp paragraph =
     (case nlp paragraph of
        Inl e \<Rightarrow> Inl e
      | Inr ents \<Rightarrow>
          Inr \<lparr>title = (case split paragraph [CHR 0x0A] of
                           [] \<Rightarrow> None
                         | line # _ \<Rightarrow> Some (strip line)),
               company = first_ent [''ORG''] ents,
               dates = findall DATE_PATTERN paragraph,
               description = []\<rparr>)"

text \<open>
  The experience loop carries the list built so far and the open entry
  \<open>current_experience\<close>, which is \<open>None\<close> until the first trigger.
\<close>

fun experience_loop ::
  "'e nlp \<Rightarrow> experience list \<Rightarrow> experience option \<Rightarrow> string list \<Rightarrow> 'e + experience list" where
  "experience_loop nlp experience_list current_experience [] =
     (case current_experience of
        None \<Rightarrow> Inr experience_list
      | Some cur \<Rightarrow> Inr (experience_list @ [cur]))"
| "experience_loop nlp experience_list current_experience (paragraph # rest) =
     (if is_trigger paragraph then
        (let flushed = (case current_experience of
                          None \<Rightarrow> experience_list
                        | Some cur \<Rightarrow> experience_list @ [cur])
         in case new_experience nlp paragraph of
              Inl e \<Rightarrow> Inl e
            | Inr fresh \<Rightarrow> experience_loop nlp flushed (Some fresh) rest)
      else
        (case current_experience of
           Some cur \<Rightarrow>
             experience_loop nlp experience_list
               (Some (cur\<lparr>description := description cur @ [strip paragraph]\<rparr>)) rest
         | None \<Rightarrow> experience_loop nlp experience_list None rest))"

definition extract_experience :: "'e nlp \<Rightarrow> string \<Rightarrow> 'e + experience list" where
  "extract_experience nlp text = experience_loop nlp [] None (paragraphs text)"

section \<open>The document builder\<close>

text \<open>
  The PDF reader is outside the repository: \<open>read_pdf path\<close> fails or yields the texts
  of the pages. \<open>extract_text_from_pdf\<close> joins them with newlines and turns every
  failure into the empty string.
\<close>

definition extract_text_from_pdf :: "(string \<Rightarrow> 'f + string list) \<Rightarrow> string \<Rightarrow> string" where
  "extract_text_from_pdf read_pdf pdf_path =
     (case read_pdf pdf_path of
        Inl e \<Rightarrow> []
      | Inr pages \<Rightarrow> join [CHR 0x0A] pages)"

text \<open>
  The body of the \<open>try\<close> block of \<open>parse_resume\<close>. \<open>path_name\<close> stands for
  \<open>Path(pdf_path).name\<close> and \<open>now\<close> for \<open>datetime.now().isoformat()\<close>.
\<close>

definition parse_resume_body ::
  "(string \<Rightarrow> 'f + string list) \<Rightarrow> 'e nlp \<Rightarrow> (string \<Rightarrow> string) \<Rightarrow> string \<Rightarrow> string
     \<Rightarrow> 'e error + parsed_data" where
  "parse_resume_body read_pdf nlp path_name now pdf_path =
     (let text = extract_text_from_pdf read_pdf pdf_path
      in if text = [] then Inl NoTextExtracted
         else case extract_contact_info nlp text of
           Inl e \<Rightarrow> Inl (NlpFault e)
         | Inr contact \<Rightarrow>
         case extract_education nlp text of
           Inl e \<Rightarrow> Inl (NlpFault e)
         | Inr edu \<Rightarrow>
         case extract_experience nlp text of
           Inl e \<Rightarrow> Inl (NlpFault e)
         | Inr exper \<Rightarrow>
             Inr [(''contact_info'', ContactInfo contact),
                  (''education'', Education edu),
                  (''experience'', Experience exper),
                  (''metadata'', Metadata \<lparr>filename = path_name pdf_path,
                                            parsed_date = now,
                                            parser_version = ''1.0.0''\<rparr>)])"

text \<open>\<open>parse_resume\<close>: every exception of the body is caught and answered with \<open>None\<close>.\<close>

definition parse_resume ::
  "(string \<Rightarrow> 'f + string list) \<Rightarrow> 'e nlp \<Rightarrow> (string \<Rightarrow> string) \<Rightarrow> string \<Rightarrow> string
     \<Rightarrow> parsed_data option" where
  "parse_resume read_pdf nlp path_name now pdf_path =
     (case parse_resume_body read_pdf nlp path_name now pdf_path of
        Inl e \<Rightarrow> None
      | Inr parsed \<Rightarrow> Some parsed)"

section \<open>First matches\<close>

text \<open>
  What it means for an optional string to be the first match of a pattern in a text:
  \<open>None\<close> when the pattern matches at no position, and otherwise the text of the
  match the engine reports at the least position at which the pattern matches.
\<close>

definition is_first_match :: "regex \<Rightarrow> string \<Rightarrow> string option \<Rightarrow> bool" where
  "is_first_match r text found =
     (case found of
        None \<Rightarrow> (\<forall>i. i \<le> length text \<longrightarrow> ends r text i = [])
      | Some m \<Rightarrow>
          (\<exists>i. i \<le> length text \<and> ends r text i \<noteq> []
             \<and> (\<forall>j. j < i \<longrightarrow> ends r text j = [])
             \<and> m = match_group text (i, hd (ends r text i))))"

section \<open>Last matches\<close>

text \<open>
  What it means for an optional string to be the last match of a pattern in a text:
  \<open>None\<close> when the pattern matches at no position, and otherwise the text of the
  match the engine reports at the greatest position at which the pattern matches.
\<close>

definition is_last_match :: "regex \<Rightarrow> string \<Rightarrow> string option \<Rightarrow> bool" where
  "is_last_match r text found =
     (case found of
        None \<Rightarrow> (\<forall>i. i \<le> length text \<longrightarrow> ends r text i = [])
      | Some m \<Rightarrow>
          (\<exists>i. i \<le> length text \<and> ends r text i \<noteq> []
             \<and> (\<forall>j. i < j \<and> j \<le> length text \<longrightarrow> ends r text j = [])
             \<and> m = match_group text (i, hd (ends r text i))))"

text \<open>
  Auxiliary notions for the analysis of the date pattern: a month word starts with
  one of the capitals \<open>JFMASOND\<close> and has none of them later; a pattern is
  month-like when it only matches such words.
\<close>

definition month_capital :: "char \<Rightarrow> bool" where
  "month_capital c = (c \<in> set ''JFMASOND'')"

definition capital_free :: "string \<Rightarrow> bool" where
  "capital_free w = list_all (\<lambda>c. \<not> month_capital c) w"

definition starts_word :: "string \<Rightarrow> bool" where
  "starts_word w = (case w of [] \<Rightarrow> False | c # cs \<Rightarrow> month_capital c \<and> capital_free cs)"

fun month_like :: "regex \<Rightarrow> bool" where
  "month_like (Lit w) = starts_word w"
| "month_like (Seq (Lit w) (Opt (Lit r))) = (starts_word w \<and> capital_free r)"
| "month_like (Alt a b) = (month_like a \<and> month_like b)"
| "month_like r = False"

section \<open>Concrete collaborators\<close>

text \<open>
  Fixed stand-ins for the collaborators, used where a property is evaluated on a
  concrete input: a recogniser that finds no entity, one that always fails, a PDF
  reader that yields given pages, one that fails, and the last component of a path
  written with slashes.
\<close>

definition no_entities :: "unit nlp" where
  "no_entities text = Inr []"

definition nlp_unavailable :: "unit nlp" where
  "nlp_unavailable text = Inl ()"

definition pdf_pages :: "string list \<Rightarrow> string \<Rightarrow> unit + string list" where
  "pdf_pages pages pdf_path = Inr pages"

definition unreadable_pdf :: "string \<Rightarrow> unit + string list" where
  "unreadable_pdf pdf_path = Inl ()"

definition last_component :: "string \<Rightarrow> string" where
  "last_component pdf_path = last (split pdf_path ''/'')"

section \<open>Properties of the string operations\<close>

lemma split_not_Nil: "split s sep \<noteq> []"
  by (induction s sep rule: split.induct) (simp_all add: Let_def)

lemma join_Cons_hd_tl:
  assumes "r \<noteq> []"
  shows "join sep ((c # hd r) # tl r) = c # join sep r"
proof (cases r)
  case Nil
  then show ?thesis using assms by simp
next
  case (Cons x xs)
  then show ?thesis by (cases xs) simp_all
qed

lemma join_split: "sep \<noteq> [] \<Longrightarrow> join sep (split s sep) = s"
proof (induction s sep rule: split.induct)
  case (1 sep)
  then show ?case by simp
next
  case (2 c cs sep)
  show ?case
  proof (cases "startswith (c # cs) sep")
    case True
    then have eq: "sep @ drop (length sep) (c # cs) = c # cs"
      unfolding startswith_def by (metis append_take_drop_id)
    have "split (c # cs) sep = [] # split (drop (length sep) (c # cs)) sep"
      using True 2(3) by simp
    moreover obtain y ys where "split (drop (length sep) (c # cs)) sep = y # ys"
      using split_not_Nil by (cases "split (drop (length sep) (c # cs)) sep") auto
    ultimately show ?thesis using 2(1)[OF _ 2(3)] True 2(3) eq by simp
  next
    case False
    then have "split (c # cs) sep = (c # hd (split cs sep)) # tl (split cs sep)"
      by (simp add: Let_def)
    then show ?thesis using 2(2)[OF _ 2(3)] False
      by (simp add: join_Cons_hd_tl split_not_Nil)
  qed
qed

lemma str_in_iff: "str_in t s \<longleftrightarrow> (\<exists>a b. s = a @ t @ b)"
proof (induction s)
  case Nil
  then show ?case by auto
next
  case (Cons c cs)
  show ?case
  proof
    assume "str_in t (c # cs)"
    then consider "startswith (c # cs) t" | "str_in t cs" by auto
    then show "\<exists>a b. c # cs = a @ t @ b"
    proof cases
      case 1
      then have "c # cs = [] @ t @ drop (length t) (c # cs)"
        unfolding startswith_def by (metis append_Nil append_take_drop_id)
      then show ?thesis by blast
    next
      case 2
      then obtain a b where "cs = a @ t @ b" using Cons.IH by auto
      then have "c # cs = (c # a) @ t @ b" by simp
      then show ?thesis by blast
    qed
  next
    assume "\<exists>a b. c # cs = a @ t @ b"
    then obtain a b where ab: "c # cs = a @ t @ b" by auto
    show "str_in t (c # cs)"
    proof (cases a)
      case Nil
      then have "startswith (c # cs) t" using ab by (simp add: startswith_def)
      then show ?thesis by simp
    next
      case (Cons x a')
      then have "cs = a' @ t @ b" using ab by simp
      then show ?thesis using Cons.IH by auto
    qed
  qed
qed

lemma hd_split_prefix: "\<exists>t. s = hd (split s sep) @ t"
proof (induction s sep rule: split.induct)
  case (1 sep)
  then show ?case by simp
next
  case (2 c cs sep)
  show ?case
  proof (cases "sep \<noteq> [] \<and> startswith (c # cs) sep")
    case True
    then show ?thesis by simp
  next
    case False
    then obtain t where "cs = hd (split cs sep) @ t" using 2(2) by blast
    then have "c # cs = (c # hd (split cs sep)) @ t" by simp
    then show ?thesis using False by (auto simp: Let_def)
  qed
qed

lemma startswith_append: "startswith a sep \<Longrightarrow> startswith (a @ t) sep"
  unfolding startswith_def
  by (metis append_eq_conv_conj append.assoc append_take_drop_id)

lemma split_no_sep: "sep \<noteq> [] \<Longrightarrow> p \<in> set (split s sep) \<Longrightarrow> \<not> str_in sep p"
proof (induction s sep arbitrary: p rule: split.induct)
  case (1 sep)
  then show ?case by simp
next
  case (2 c cs sep)
  show ?case
  proof (cases "startswith (c # cs) sep")
    case True
    then have "p = [] \<or> p \<in> set (split (drop (length sep) (c # cs)) sep)"
      using 2(3,4) by simp
    then show ?thesis using 2(1)[OF _ 2(3)] True 2(3) by auto
  next
    case False
    let ?r = "split cs sep"
    have r: "?r \<noteq> []" by (rule split_not_Nil)
    from False 2(4) have "p = c # hd ?r \<or> p \<in> set (tl ?r)"
      by (simp add: Let_def)
    then show ?thesis
    proof
      assume p: "p = c # hd ?r"
      obtain t where t: "cs = hd ?r @ t" using hd_split_prefix by blast
      have "\<not> startswith (c # hd ?r) sep"
      proof
        assume "startswith (c # hd ?r) sep"
        then have "startswith ((c # hd ?r) @ t) sep" by (rule startswith_append)
        then show False using False t by simp
      qed
      moreover have "\<not> str_in sep (hd ?r)"
        using 2(2)[OF _ 2(3)] False r by (simp add: hd_in_set)
      ultimately show ?thesis using p by simp
    next
      assume "p \<in> set (tl ?r)"
      then have "p \<in> set ?r" using r by (meson list.set_sel(2))
      then show ?thesis using 2(2)[OF _ 2(3)] False by simp
    qed
  qed
qed

lemma split_two_pieces:
  assumes "sep \<noteq> []" and "split s sep = x # y # ys"
  shows "s = x @ sep @ join sep (y # ys)"
proof -
  have "join sep (split s sep) = s" using assms(1) by (rule join_split)
  then show ?thesis using assms(2) by simp
qed

lemma not_startswith_butlast: "sep \<noteq> [] \<Longrightarrow> \<not> str_in sep (butlast sep)"
proof
  assume ne: "sep \<noteq> []" and "str_in sep (butlast sep)"
  then obtain a b where "butlast sep = a @ sep @ b" using str_in_iff by blast
  then have "length (butlast sep) = length a + length sep + length b" by simp
  moreover have "length (butlast sep) < length sep" using ne by (simp add: length_greater_0_conv)
  ultimately show False by linarith
qed

lemma split_leftmost:
  "sep \<noteq> [] \<Longrightarrow> Suc k < length (split s sep) \<Longrightarrow> \<not> str_in sep (split s sep ! k @ butlast sep)"
proof (induction s sep arbitrary: k rule: split.induct)
  case (1 sep)
  then show ?case by simp
next
  case (2 c cs sep)
  show ?case
  proof (cases "startswith (c # cs) sep")
    case True
    then have eq: "split (c # cs) sep = [] # split (drop (length sep) (c # cs)) sep"
      using 2(3) by simp
    show ?thesis
    proof (cases k)
      case 0
      then show ?thesis using eq not_startswith_butlast[OF 2(3)] by simp
    next
      case (Suc k')
      then have "Suc k' < length (split (drop (length sep) (c # cs)) sep)"
        using 2(4) eq by simp
      then show ?thesis using 2(1)[OF _ 2(3)] True 2(3) Suc eq by simp
    qed
  next
    case False
    let ?r = "split cs sep"
    have eq: "split (c # cs) sep = (c # hd ?r) # tl ?r"
      using False by (simp add: Let_def)
    have len: "Suc k < length ?r" using 2(4) eq split_not_Nil[of cs sep]
      by (cases ?r) auto
    show ?thesis
    proof (cases k)
      case 0
      then obtain x y ys where r: "?r = x # y # ys" using len
        by (cases ?r; cases "tl ?r") auto
      then have cs: "cs = (x @ butlast sep) @ [last sep] @ join sep (y # ys)"
        using split_two_pieces[OF 2(3) r] 2(3) by simp
      have "\<not> startswith (c # x @ butlast sep) sep"
      proof
        assume "startswith (c # x @ butlast sep) sep"
        then have "startswith ((c # x @ butlast sep) @ [last sep] @ join sep (y # ys)) sep"
          by (rule startswith_append)
        then show False using False cs by simp
      qed
      moreover have "\<not> str_in sep (x @ butlast sep)"
        using 2(2)[OF _ 2(3), of 0] False len r by simp
      ultimately show ?thesis using 0 eq r by simp
    next
      case (Suc k')
      then have "split (c # cs) sep ! k = ?r ! k" using eq len
        by (cases ?r) auto
      then show ?thesis using 2(2)[OF _ 2(3) len] False by simp
    qed
  qed
qed

section \<open>Paragraph splitting\<close>

text \<open>
  Claim C3, as stated, fails: a run of four newlines does not separate two adjacent
  paragraphs but leaves an empty paragraph between them.
\<close>

theorem paragraphs_four_newlines:
  "paragraphs ''a\<newline>\<newline>\<newline>\<newline>b'' = [''a'', [], ''b'']"
  by code_simp

text \<open>
  Claim C3, amended: both extractors iterate over \<open>text.split('\n\n')\<close>. The text
  is cut at each occurrence of exactly two consecutive newlines found scanning from
  the left: joining the paragraphs with two newlines gives the text back, no
  paragraph contains two consecutive newlines, and no paragraph but the last,
  extended by one newline, does.
\<close>

theorem paragraphs_cut_at_double_newline:
  "extract_education nlp text = education_loop nlp [] (paragraphs text)
   \<and> extract_experience nlp text = experience_loop nlp [] None (paragraphs text)
   \<and> join [CHR 0x0A, CHR 0x0A] (paragraphs text) = text
   \<and> (\<forall>p \<in> set (paragraphs text). \<not> str_in [CHR 0x0A, CHR 0x0A] p)
   \<and> (\<forall>k. Suc k < length (paragraphs text)
          \<longrightarrow> \<not> str_in [CHR 0x0A, CHR 0x0A] (paragraphs text ! k @ [CHR 0x0A]))"
proof -
  have ne: "[CHR 0x0A, CHR 0x0A] \<noteq> []" by simp
  have a: "join [CHR 0x0A, CHR 0x0A] (paragraphs text) = text"
    unfolding paragraphs_def using ne by (rule join_split)
  have b: "\<forall>p \<in> set (paragraphs text). \<not> str_in [CHR 0x0A, CHR 0x0A] p"
    unfolding paragraphs_def using split_no_sep[OF ne] by blast
  have c: "\<forall>k. Suc k < length (paragraphs text)
          \<longrightarrow> \<not> str_in [CHR 0x0A, CHR 0x0A] (paragraphs text ! k @ [CHR 0x0A])"
    unfolding paragraphs_def using split_leftmost[OF ne, of _ "text"] by simp
  show ?thesis
    using a b c by (simp add: extract_education_def extract_experience_def)
qed

theorem paragraphs_cut_at_double_newline_witness:
  "join [CHR 0x0A, CHR 0x0A] (paragraphs ''a\<newline>\<newline>\<newline>b'') = ''a\<newline>\<newline>\<newline>b''
   \<and> paragraphs ''a\<newline>\<newline>\<newline>b'' = [''a'', ''\<newline>b'']
   \<and> \<not> str_in [CHR 0x0A, CHR 0x0A] ''a''
   \<and> \<not> str_in [CHR 0x0A, CHR 0x0A] ''\<newline>b''
   \<and> \<not> str_in [CHR 0x0A, CHR 0x0A] (''a'' @ [CHR 0x0A])"
proof -
  have ps: "paragraphs ''a\<newline>\<newline>\<newline>b'' = [''a'', ''\<newline>b'']"
    by code_simp
  show ?thesis
    using paragraphs_cut_at_double_newline[of no_entities "''a\<newline>\<newline>\<newline>b''"]
    unfolding ps by simp
qed

section \<open>Properties of the matcher\<close>

lemma find_upt_None:
  "List.find P [a ..< b] = None \<longleftrightarrow> (\<forall>j. a \<le> j \<and> j < b \<longrightarrow> \<not> P j)"
  by (auto simp: find_None_iff)

lemma find_upt_Some:
  "List.find P [a ..< b] = Some i \<longleftrightarrow> (a \<le> i \<and> i < b \<and> P i \<and> (\<forall>j. a \<le> j \<and> j < i \<longrightarrow> \<not> P j))"
proof
  assume "List.find P [a ..< b] = Some i"
  then obtain k where k: "k < length [a ..< b]" "P ([a ..< b] ! k)" "i = [a ..< b] ! k"
    "\<forall>j<k. \<not> P ([a ..< b] ! j)"
    unfolding find_Some_iff by blast
  then have i: "i = a + k" "k < b - a" by simp_all
  have "\<forall>j. a \<le> j \<and> j < i \<longrightarrow> \<not> P j"
  proof (intro allI impI)
    fix j assume j: "a \<le> j \<and> j < i"
    then have "j - a < k" using i by linarith
    then have "\<not> P ([a ..< b] ! (j - a))" using k(4) by blast
    moreover have "a + (j - a) < b" using j i by linarith
    then have "[a ..< b] ! (j - a) = a + (j - a)" by (rule nth_upt)
    then have "[a ..< b] ! (j - a) = j" using j by simp
    ultimately show "\<not> P j" by simp
  qed
  then show "a \<le> i \<and> i < b \<and> P i \<and> (\<forall>j. a \<le> j \<and> j < i \<longrightarrow> \<not> P j)"
    using k i by simp
next
  assume h: "a \<le> i \<and> i < b \<and> P i \<and> (\<forall>j. a \<le> j \<and> j < i \<longrightarrow> \<not> P j)"
  then have h1: "a \<le> i" "i < b" "P i" by simp_all
  have lt: "a + (i - a) < b" using h1 by linarith
  have nth: "[a ..< b] ! (i - a) = i" using nth_upt[OF lt] h1 by simp
  have "i - a < length [a ..< b]" using h1 by (simp add: diff_less_mono)
  moreover have "P ([a ..< b] ! (i - a))" "i = [a ..< b] ! (i - a)"
    using nth h1 by simp_all
  moreover have "\<forall>j<i - a. \<not> P ([a ..< b] ! j)"
  proof (intro allI impI)
    fix j assume j: "j < i - a"
    then have "a + j < b" using h1 by linarith
    then have "[a ..< b] ! j = a + j" by (rule nth_upt)
    moreover have "a \<le> a + j \<and> a + j < i" using j by linarith
    ultimately show "\<not> P ([a ..< b] ! j)" using h by metis
  qed
  ultimately show "List.find P [a ..< b] = Some i"
    unfolding find_Some_iff by blast
qed

lemma search_None_iff:
  "search r s pos = None \<longleftrightarrow> (\<forall>j. pos \<le> j \<and> j \<le> length s \<longrightarrow> ends r s j = [])"
proof -
  have "search r s pos = None \<longleftrightarrow> List.find (\<lambda>i. ends r s i \<noteq> []) [pos ..< Suc (length s)] = None"
    unfolding search_def by (simp split: option.splits)
  then show ?thesis unfolding find_upt_None by (simp add: less_Suc_eq_le)
qed

lemma search_Some_iff:
  "search r s pos = Some (i, e) \<longleftrightarrow>
     (pos \<le> i \<and> i \<le> length s \<and> ends r s i \<noteq> [] \<and> e = hd (ends r s i)
      \<and> (\<forall>j. pos \<le> j \<and> j < i \<longrightarrow> ends r s j = []))"
proof -
  have "search r s pos = Some (i, e) \<longleftrightarrow>
    (List.find (\<lambda>i. ends r s i \<noteq> []) [pos ..< Suc (length s)] = Some i \<and> e = hd (ends r s i))"
    unfolding search_def by (auto split: option.splits)
  then show ?thesis unfolding find_upt_Some by (auto simp: less_Suc_eq_le)
qed

lemma starts_iff_str_in:
  "(\<exists>i\<le>length s. startswith (drop i s) t) \<longleftrightarrow> str_in t s"
proof (induction s)
  case Nil
  then show ?case by (auto simp: startswith_def)
next
  case (Cons c cs)
  have "(\<exists>i\<le>length (c # cs). startswith (drop i (c # cs)) t)
        \<longleftrightarrow> (startswith (c # cs) t \<or> (\<exists>i\<le>length cs. startswith (drop i cs) t))"
  proof
    assume "\<exists>i\<le>length (c # cs). startswith (drop i (c # cs)) t"
    then obtain i where i: "i \<le> length (c # cs)" "startswith (drop i (c # cs)) t" by blast
    show "startswith (c # cs) t \<or> (\<exists>i\<le>length cs. startswith (drop i cs) t)"
    proof (cases i)
      case 0
      then show ?thesis using i by simp
    next
      case (Suc i')
      then have "i' \<le> length cs" "startswith (drop i' cs) t" using i by simp_all
      then show ?thesis by blast
    qed
  next
    assume "startswith (c # cs) t \<or> (\<exists>i\<le>length cs. startswith (drop i cs) t)"
    then show "\<exists>i\<le>length (c # cs). startswith (drop i (c # cs)) t"
    proof
      assume "startswith (c # cs) t"
      then have "0 \<le> length (c # cs) \<and> startswith (drop 0 (c # cs)) t" by simp
      then show ?thesis by blast
    next
      assume "\<exists>i\<le>length cs. startswith (drop i cs) t"
      then obtain i where "i \<le> length cs" "startswith (drop i cs) t" by blast
      then have "Suc i \<le> length (c # cs) \<and> startswith (drop (Suc i) (c # cs)) t" by simp
      then show ?thesis by blast
    qed
  qed
  then show ?case using Cons.IH by simp
qed

lemma search_nonempty_iff:
  "search r s 0 \<noteq> None \<longleftrightarrow> (\<exists>i\<le>length s. ends r s i \<noteq> [])"
  unfolding search_None_iff by auto

lemma ends_Rep_exact:
  "ends (Rep P n (Some n)) s i = (if n \<le> length (takeWhile P (drop i s)) then [i + n] else [])"
  by (auto simp: Let_def min_def)

lemma two_digits_iff:
  "2 \<le> length (takeWhile P xs) \<longleftrightarrow> (\<exists>d1 d2 rest. xs = d1 # d2 # rest \<and> P d1 \<and> P d2)"
proof (cases xs)
  case Nil
  then show ?thesis by simp
next
  case (Cons a ys)
  then show ?thesis by (cases ys) auto
qed

lemma startswith_Cons:
  "startswith xs (c # t) \<longleftrightarrow> (\<exists>ys. xs = c # ys \<and> startswith ys t)"
  unfolding startswith_def by (cases xs) auto

lemma startswith_Nil [simp]: "startswith xs []"
  unfolding startswith_def by simp

lemma year_at_iff:
  "(startswith xs [a, b] \<and> 2 \<le> length (takeWhile P (drop 2 xs)))
   \<longleftrightarrow> (\<exists>d1 d2. P d1 \<and> P d2 \<and> startswith xs ([a, b] @ [d1, d2]))"
  unfolding two_digits_iff by (auto simp: startswith_Cons)

lemma ends_TRIGGER:
  "ends TRIGGER_PATTERN s i \<noteq> [] \<longleftrightarrow>
     (\<exists>d1 d2. isdigit d1 \<and> isdigit d2
        \<and> (startswith (drop i s) (''19'' @ [d1, d2]) \<or> startswith (drop i s) (''20'' @ [d1, d2])))
     \<or> startswith (drop i s) ''present'' \<or> startswith (drop i s) ''current''"
proof -
  have "ends TRIGGER_PATTERN s i \<noteq> [] \<longleftrightarrow>
    (startswith (drop i s) ''19'' \<and> 2 \<le> length (takeWhile isdigit (drop 2 (drop i s))))
    \<or> (startswith (drop i s) ''20'' \<and> 2 \<le> length (takeWhile isdigit (drop 2 (drop i s))))
    \<or> startswith (drop i s) ''present'' \<or> startswith (drop i s) ''current''"
    unfolding TRIGGER_PATTERN_def by (auto simp del: ends.simps(3) simp: ends_Rep_exact add.commute)
  then show ?thesis unfolding year_at_iff by blast
qed


section \<open>New-entry triggers\<close>

text \<open>
  Claim C4, as stated, fails: the pattern is searched without word boundaries, so
  \<open>current\<close> inside \<open>concurrent\<close> and \<open>2019\<close> inside \<open>120199\<close> are triggers.
\<close>

theorem trigger_inside_longer_token:
  "is_trigger ''Concurrent programming'' \<and> is_trigger ''Badge 120199''"
  by code_simp

text \<open>
  Claim C4, amended: a paragraph is a new-entry trigger if and only if its
  lowercased text contains, anywhere as a substring, \<open>19\<close> or \<open>20\<close> followed by two
  digits, or \<open>present\<close>, or \<open>current\<close>.
\<close>

theorem is_trigger_iff_substring:
  "is_trigger paragraph \<longleftrightarrow>
     (\<exists>d1 d2. isdigit d1 \<and> isdigit d2
        \<and> (str_in (''19'' @ [d1, d2]) (lower paragraph)
             \<or> str_in (''20'' @ [d1, d2]) (lower paragraph)))
     \<or> str_in ''present'' (lower paragraph) \<or> str_in ''current'' (lower paragraph)"
proof -
  let ?s = "lower paragraph"
  have "is_trigger paragraph \<longleftrightarrow> (\<exists>i\<le>length ?s. ends TRIGGER_PATTERN ?s i \<noteq> [])"
    unfolding is_trigger_def by (rule search_nonempty_iff)
  also have "\<dots> \<longleftrightarrow>
     (\<exists>d1 d2. isdigit d1 \<and> isdigit d2
        \<and> ((\<exists>i\<le>length ?s. startswith (drop i ?s) (''19'' @ [d1, d2]))
             \<or> (\<exists>i\<le>length ?s. startswith (drop i ?s) (''20'' @ [d1, d2]))))
     \<or> (\<exists>i\<le>length ?s. startswith (drop i ?s) ''present'')
     \<or> (\<exists>i\<le>length ?s. startswith (drop i ?s) ''current'')"
    unfolding ends_TRIGGER by blast
  finally show ?thesis unfolding starts_iff_str_in .
qed

section \<open>Contact extraction\<close>

lemma first_match_is_first: "is_first_match r text (first_match r text)"
proof (cases "search r text 0")
  case None
  then have "\<forall>i. i \<le> length text \<longrightarrow> ends r text i = []"
    using search_None_iff[of r "text" 0] by simp
  then show ?thesis
    unfolding is_first_match_def first_match_def using None by simp
next
  case (Some m)
  obtain i e where m: "m = (i, e)" by (cases m)
  then have "i \<le> length text \<and> ends r text i \<noteq> [] \<and> (\<forall>j. j < i \<longrightarrow> ends r text j = [])
      \<and> match_group text m = match_group text (i, hd (ends r text i))"
    using Some by (simp add: search_Some_iff)
  then show ?thesis
    unfolding is_first_match_def first_match_def using Some by auto
qed

lemma phone_example:
  "first_match PHONE_PATTERN ''call me at 555-111-2222 or 555-333-4444'' = Some ''555-111-2222''"
  by code_simp

text \<open>
  Claim C6: each of the email, phone, linkedin and github fields is the first match
  of its pattern in the whole text, \<open>None\<close> when there is none; for the text
  \<open>call me at 555-111-2222 or 555-333-4444\<close> the phone is \<open>555-111-2222\<close>.
\<close>

theorem contact_fields_first_match:
  assumes "extract_contact_info nlp text = Inr c"
  shows "is_first_match EMAIL_PATTERN text (email c)
       \<and> is_first_match PHONE_PATTERN text (phone c)
       \<and> is_first_match LINKEDIN_PATTERN text (linkedin c)
       \<and> is_first_match GITHUB_PATTERN text (github c)
       \<and> (text = ''call me at 555-111-2222 or 555-333-4444'' \<longrightarrow> phone c = Some ''555-111-2222'')"
proof -
  from assms have "email c = first_match EMAIL_PATTERN text"
    "phone c = first_match PHONE_PATTERN text"
    "linkedin c = first_match LINKEDIN_PATTERN text"
    "github c = first_match GITHUB_PATTERN text"
    unfolding extract_contact_info_def by (auto simp: Let_def split: sum.splits)
  then show ?thesis using first_match_is_first phone_example by simp
qed

theorem contact_fields_first_match_witness:
  "extract_contact_info no_entities ''call me at 555-111-2222 or 555-333-4444''
     = Inr \<lparr>email = None, phone = Some ''555-111-2222'', linkedin = None, github = None,
            location = None\<rparr>
   \<and> is_first_match EMAIL_PATTERN ''call me at 555-111-2222 or 555-333-4444'' None
   \<and> is_first_match PHONE_PATTERN ''call me at 555-111-2222 or 555-333-4444'' (Some ''555-111-2222'')"
proof -
  have e: "extract_contact_info no_entities ''call me at 555-111-2222 or 555-333-4444''
     = Inr \<lparr>email = None, phone = Some ''555-111-2222'', linkedin = None, github = None,
            location = None\<rparr>"
    by code_simp
  show ?thesis using contact_fields_first_match[OF e] e by simp
qed

section \<open>Education entries\<close>

lemma truthy_not_None: "truthy x \<Longrightarrow> x \<noteq> None"
  by (cases x) simp_all

lemma education_loop_entries:
  assumes "education_loop nlp acc ps = Inr es" and "info \<in> set es"
  shows "info \<in> set acc
       \<or> (\<exists>p \<in> set ps. has_education_term p \<and> education_entry nlp p = Inr info
             \<and> (truthy (degree info) \<or> truthy (institution info)))"
  using assms
proof (induction ps arbitrary: acc)
  case Nil
  then show ?case by simp
next
  case (Cons p ps)
  show ?case
  proof (cases "has_education_term p")
    case False
    then have "education_loop nlp acc ps = Inr es" using Cons.prems(1) by simp
    then show ?thesis using Cons.IH Cons.prems(2) by fastforce
  next
    case True
    then obtain new where new: "education_entry nlp p = Inr new"
      using Cons.prems(1) by (cases "education_entry nlp p") simp_all
    show ?thesis
    proof (cases "truthy (degree new) \<or> truthy (institution new)")
      case keep: True
      then have "education_loop nlp (acc @ [new]) ps = Inr es"
        using Cons.prems(1) True new by simp
      then have "info \<in> set (acc @ [new])
         \<or> (\<exists>q \<in> set ps. has_education_term q \<and> education_entry nlp q = Inr info
               \<and> (truthy (degree info) \<or> truthy (institution info)))"
        using Cons.IH Cons.prems(2) by blast
      then show ?thesis using True new keep by auto
    next
      case drop: False
      then have "education_loop nlp acc ps = Inr es"
        using Cons.prems(1) True new by simp
      then show ?thesis using Cons.IH Cons.prems(2) by fastforce
    qed
  qed
qed

text \<open>
  Claim C7: every entry of the education extractor's output has a degree or an
  institution. Each entry is the one built from an education-qualified paragraph
  of the text, and it is in the output only because one of the two fields is set;
  a qualified paragraph whose entry has neither contributes nothing.
\<close>

theorem education_entries_have_degree_or_institution:
  assumes "extract_education nlp text = Inr es" and "info \<in> set es"
  shows "(degree info \<noteq> None \<or> institution info \<noteq> None)
       \<and> (\<exists>p \<in> set (paragraphs text). has_education_term p \<and> education_entry nlp p = Inr info)"
proof -
  from assms have "\<exists>p \<in> set (paragraphs text). has_education_term p
      \<and> education_entry nlp p = Inr info \<and> (truthy (degree info) \<or> truthy (institution info))"
    unfolding extract_education_def using education_loop_entries by fastforce
  then show ?thesis using truthy_not_None by blast
qed

lemma education_example:
  "extract_education no_entities ''Bachelor of Science in Computer Science\<newline>State University\<newline>May 2020''
   = Inr [\<lparr>degree = Some ''Bachelor of Science in Computer Science'', institution = None,
           graduation_date = Some ''May 2020'', gpa = None\<rparr>]"
  by code_simp


theorem education_entries_have_degree_or_institution_witness:
  "extract_education no_entities ''Bachelor of Science in Computer Science\<newline>State University\<newline>May 2020''
     = Inr [\<lparr>degree = Some ''Bachelor of Science in Computer Science'', institution = None,
             graduation_date = Some ''May 2020'', gpa = None\<rparr>]
   \<and> (\<exists>p \<in> set (paragraphs ''Bachelor of Science in Computer Science\<newline>State University\<newline>May 2020'').
         has_education_term p
         \<and> education_entry no_entities p
             = Inr \<lparr>degree = Some ''Bachelor of Science in Computer Science'', institution = None,
                    graduation_date = Some ''May 2020'', gpa = None\<rparr>)"
  using education_entries_have_degree_or_institution[OF education_example, of
      "\<lparr>degree = Some ''Bachelor of Science in Computer Science'', institution = None,
        graduation_date = Some ''May 2020'', gpa = None\<rparr>"]
    education_example
  by simp

section \<open>Experience entries\<close>

lemma new_experience_title:
  assumes "new_experience nlp p = Inr fresh"
  shows "\<exists>line rest. split p [CHR 0x0A] = line # rest \<and> title fresh = Some (strip line)"
proof -
  obtain line rest where sp: "split p [CHR 0x0A] = line # rest"
    using split_not_Nil[of p "[CHR 0x0A]"] by (cases "split p [CHR 0x0A]") auto
  from assms have "title fresh = Some (strip line)"
    unfolding new_experience_def using sp by (auto split: sum.splits)
  then show ?thesis using sp by blast
qed

lemma experience_loop_titles:
  assumes "experience_loop nlp acc cur ps = Inr es" and "e \<in> set es"
  shows "e \<in> set acc
       \<or> (\<exists>c. cur = Some c \<and> title e = title c)
       \<or> (\<exists>p \<in> set ps. is_trigger p \<and> (\<exists>fresh. new_experience nlp p = Inr fresh \<and> title e = title fresh))"
  using assms
proof (induction ps arbitrary: acc cur)
  case Nil
  then show ?case by (cases cur) auto
next
  case (Cons p ps)
  show ?case
  proof (cases "is_trigger p")
    case True
    then obtain fresh where fresh: "new_experience nlp p = Inr fresh"
      using Cons.prems(1) by (cases "new_experience nlp p") (simp_all add: Let_def)
    let ?flushed = "case cur of None \<Rightarrow> acc | Some c \<Rightarrow> acc @ [c]"
    have "experience_loop nlp ?flushed (Some fresh) ps = Inr es"
      using Cons.prems(1) True fresh by (simp add: Let_def)
    then have "e \<in> set ?flushed \<or> title e = title fresh
       \<or> (\<exists>q \<in> set ps. is_trigger q \<and> (\<exists>f. new_experience nlp q = Inr f \<and> title e = title f))"
      using Cons.IH[of ?flushed "Some fresh"] Cons.prems(2) by auto
    then show ?thesis using True fresh by (cases cur) auto
  next
    case False
    show ?thesis
    proof (cases cur)
      case None
      then have "experience_loop nlp acc None ps = Inr es"
        using Cons.prems(1) False by simp
      then show ?thesis using Cons.IH[of acc None] Cons.prems(2) None by auto
    next
      case (Some c)
      let ?c = "c\<lparr>description := description c @ [strip p]\<rparr>"
      have "experience_loop nlp acc (Some ?c) ps = Inr es"
        using Cons.prems(1) False Some by simp
      then have "e \<in> set acc \<or> title e = title ?c
         \<or> (\<exists>q \<in> set ps. is_trigger q \<and> (\<exists>f. new_experience nlp q = Inr f \<and> title e = title f))"
        using Cons.IH[of acc "Some ?c"] Cons.prems(2) by auto
      then show ?thesis using Some by auto
    qed
  qed
qed

lemma experience_loop_title_list:
  assumes "experience_loop nlp acc cur ps = Inr es"
  shows "map title es
       = map title acc @ (case cur of None \<Rightarrow> [] | Some c \<Rightarrow> [title c])
         @ map (\<lambda>p. Some (strip (hd (split p [CHR 0x0A])))) (filter is_trigger ps)"
  using assms
proof (induction ps arbitrary: acc cur)
  case Nil
  then show ?case by (cases cur) auto
next
  case (Cons p ps)
  show ?case
  proof (cases "is_trigger p")
    case True
    then obtain fresh where fresh: "new_experience nlp p = Inr fresh"
      using Cons.prems by (cases "new_experience nlp p") (simp_all add: Let_def)
    then have t: "title fresh = Some (strip (hd (split p [CHR 0x0A])))"
      using new_experience_title[OF fresh] by auto
    let ?flushed = "case cur of None \<Rightarrow> acc | Some c \<Rightarrow> acc @ [c]"
    have "experience_loop nlp ?flushed (Some fresh) ps = Inr es"
      using Cons.prems True fresh by (simp add: Let_def)
    then have "map title es = map title ?flushed @ [title fresh]
        @ map (\<lambda>p. Some (strip (hd (split p [CHR 0x0A])))) (filter is_trigger ps)"
      using Cons.IH[of ?flushed "Some fresh"] by simp
    then show ?thesis using True t by (cases cur) simp_all
  next
    case False
    show ?thesis
    proof (cases cur)
      case None
      then have "experience_loop nlp acc None ps = Inr es"
        using Cons.prems False by simp
      then show ?thesis using Cons.IH[of acc None] None False by simp
    next
      case (Some c)
      let ?c = "c\<lparr>description := description c @ [strip p]\<rparr>"
      have "experience_loop nlp acc (Some ?c) ps = Inr es"
        using Cons.prems False Some by simp
      then show ?thesis using Cons.IH[of acc "Some ?c"] Some False by simp
    qed
  qed
qed

text \<open>
  Claim C10: every entry of the experience extractor's output has a title, the
  trimmed first line of the trigger paragraph that opened it. The entries are in
  one-to-one, order-preserving correspondence with the trigger paragraphs of the
  text: the title of the k-th entry is the trimmed first line of the k-th trigger
  paragraph, the one that opened it. The first line always exists, because
  \<open>split\<close> never returns the empty list.
\<close>

theorem experience_title_is_first_line:
  assumes "extract_experience nlp text = Inr es"
  shows "map title es
           = map (\<lambda>p. Some (strip (hd (split p [CHR 0x0A]))))
               (filter is_trigger (paragraphs text))
       \<and> (\<forall>p. split p [CHR 0x0A] \<noteq> [])
       \<and> (\<forall>e \<in> set es. \<exists>p \<in> set (paragraphs text). is_trigger p
              \<and> (\<exists>line rest. split p [CHR 0x0A] = line # rest \<and> title e = Some (strip line)))"
proof -
  have a: "map title es
      = map (\<lambda>p. Some (strip (hd (split p [CHR 0x0A])))) (filter is_trigger (paragraphs text))"
    using experience_loop_title_list[of nlp "[]" None "paragraphs text" es] assms
    unfolding extract_experience_def by simp
  have b: "\<exists>p \<in> set (paragraphs text). is_trigger p
      \<and> (\<exists>line rest. split p [CHR 0x0A] = line # rest \<and> title e = Some (strip line))"
    if e: "e \<in> set es" for e
  proof -
    from assms e obtain p fresh where p: "p \<in> set (paragraphs text)" "is_trigger p"
        "new_experience nlp p = Inr fresh" "title e = title fresh"
      unfolding extract_experience_def using experience_loop_titles[of nlp "[]" None] by fastforce
    then show ?thesis using new_experience_title[OF p(3)] by auto
  qed
  show ?thesis using a b split_not_Nil by blast
qed

lemma scenario_paragraphs:
  "paragraphs (join [CHR 0x0A, CHR 0x0A]
      [''Backend Engineer\<newline>Acme Corp'', ''2019 - 2022\<newline>Built services.'',
       ''Led a team of 5.'', ''Intern\<newline>WidgetCo'', ''2017 - 2018''])
   = [''Backend Engineer\<newline>Acme Corp'', ''2019 - 2022\<newline>Built services.'',
      ''Led a team of 5.'', ''Intern\<newline>WidgetCo'', ''2017 - 2018'']"
  by code_simp

lemma scenario_triggers:
  "\<not> is_trigger ''Backend Engineer\<newline>Acme Corp''"
  "is_trigger ''2019 - 2022\<newline>Built services.''"
  "\<not> is_trigger ''Led a team of 5.''"
  "\<not> is_trigger ''Intern\<newline>WidgetCo''"
  "is_trigger ''2017 - 2018''"
  by code_simp+

lemma scenario_first_entry:
  assumes "nlp ''2019 - 2022\<newline>Built services.'' = Inr ents"
  shows "new_experience nlp ''2019 - 2022\<newline>Built services.''
       = Inr \<lparr>title = Some ''2019 - 2022'', company = first_ent [''ORG''] ents, dates = [],
              description = []\<rparr>"
proof -
  have "split ''2019 - 2022\<newline>Built services.'' [CHR 0x0A] = [''2019 - 2022'', ''Built services.'']"
    "strip ''2019 - 2022'' = ''2019 - 2022''"
    "findall DATE_PATTERN ''2019 - 2022\<newline>Built services.'' = []"
    by code_simp+
  then show ?thesis using assms by (simp add: new_experience_def)
qed

lemma scenario_second_entry:
  assumes "nlp ''2017 - 2018'' = Inr ents"
  shows "new_experience nlp ''2017 - 2018''
       = Inr \<lparr>title = Some ''2017 - 2018'', company = first_ent [''ORG''] ents, dates = [],
              description = []\<rparr>"
proof -
  have "split ''2017 - 2018'' [CHR 0x0A] = [''2017 - 2018'']"
    "strip ''2017 - 2018'' = ''2017 - 2018''"
    "findall DATE_PATTERN ''2017 - 2018'' = []"
    by code_simp+
  then show ?thesis using assms by (simp add: new_experience_def)
qed

lemma scenario_strips:
  "strip ''Led a team of 5.'' = ''Led a team of 5.''"
  "strip ''Intern\<newline>WidgetCo'' = ''Intern\<newline>WidgetCo''"
  by code_simp+

text \<open>
  Claim C5: on the five paragraphs of the scenario the experience extractor yields
  exactly two entries, and the description of the first contains
  \<open>Led a team of 5.\<close>. A non-trigger paragraph is appended to the open entry, a
  trigger flushes the open entry, and the entry still open at the end is flushed.
\<close>

theorem experience_scenario:
  assumes "nlp ''2019 - 2022\<newline>Built services.'' = Inr ents1"
      and "nlp ''2017 - 2018'' = Inr ents2"
  shows "extract_experience nlp (join [CHR 0x0A, CHR 0x0A]
            [''Backend Engineer\<newline>Acme Corp'', ''2019 - 2022\<newline>Built services.'',
             ''Led a team of 5.'', ''Intern\<newline>WidgetCo'', ''2017 - 2018''])
         = Inr [\<lparr>title = Some ''2019 - 2022'', company = first_ent [''ORG''] ents1, dates = [],
                  description = [''Led a team of 5.'', ''Intern\<newline>WidgetCo'']\<rparr>,
                \<lparr>title = Some ''2017 - 2018'', company = first_ent [''ORG''] ents2, dates = [],
                  description = []\<rparr>]
       \<and> (\<not> is_trigger p \<longrightarrow>
            experience_loop nlp acc (Some cur) (p # rest)
              = experience_loop nlp acc (Some (cur\<lparr>description := description cur @ [strip p]\<rparr>)) rest)
       \<and> (is_trigger p \<and> new_experience nlp p = Inr fresh \<longrightarrow>
            experience_loop nlp acc (Some cur) (p # rest)
              = experience_loop nlp (acc @ [cur]) (Some fresh) rest)
       \<and> experience_loop nlp acc (Some cur) [] = Inr (acc @ [cur])"
proof -
  have "extract_experience nlp (join [CHR 0x0A, CHR 0x0A]
            [''Backend Engineer\<newline>Acme Corp'', ''2019 - 2022\<newline>Built services.'',
             ''Led a team of 5.'', ''Intern\<newline>WidgetCo'', ''2017 - 2018''])
         = Inr [\<lparr>title = Some ''2019 - 2022'', company = first_ent [''ORG''] ents1, dates = [],
                  description = [''Led a team of 5.'', ''Intern\<newline>WidgetCo'']\<rparr>,
                \<lparr>title = Some ''2017 - 2018'', company = first_ent [''ORG''] ents2, dates = [],
                  description = []\<rparr>]"
    unfolding extract_experience_def scenario_paragraphs
    by (simp add: scenario_triggers scenario_first_entry[of nlp ents1, OF assms(1)]
        scenario_second_entry[of nlp ents2, OF assms(2)] scenario_strips)
  then show ?thesis by (simp add: Let_def)
qed


theorem experience_scenario_witness:
  "extract_experience no_entities (join [CHR 0x0A, CHR 0x0A]
      [''Backend Engineer\<newline>Acme Corp'', ''2019 - 2022\<newline>Built services.'',
       ''Led a team of 5.'', ''Intern\<newline>WidgetCo'', ''2017 - 2018''])
     = Inr [\<lparr>title = Some ''2019 - 2022'', company = None, dates = [],
              description = [''Led a team of 5.'', ''Intern\<newline>WidgetCo'']\<rparr>,
            \<lparr>title = Some ''2017 - 2018'', company = None, dates = [], description = []\<rparr>]
   \<and> experience_loop no_entities []
         (Some \<lparr>title = Some ''2019 - 2022'', company = None, dates = [], description = []\<rparr>)
         [''Led a team of 5.'']
       = Inr [\<lparr>title = Some ''2019 - 2022'', company = None, dates = [],
                description = [''Led a team of 5.'']\<rparr>]
   \<and> experience_loop no_entities []
         (Some \<lparr>title = Some ''2019 - 2022'', company = None, dates = [], description = []\<rparr>)
         [''2017 - 2018'']
       = Inr [\<lparr>title = Some ''2019 - 2022'', company = None, dates = [], description = []\<rparr>,
              \<lparr>title = Some ''2017 - 2018'', company = None, dates = [], description = []\<rparr>]"
proof -
  have n: "no_entities ''2019 - 2022\<newline>Built services.'' = Inr []"
    "no_entities ''2017 - 2018'' = Inr []"
    by (simp_all add: no_entities_def)
  have f: "new_experience no_entities ''2017 - 2018''
       = Inr \<lparr>title = Some ''2017 - 2018'', company = None, dates = [], description = []\<rparr>"
    using scenario_second_entry[of no_entities "[]", OF n(2)] by (simp add: first_ent_def)
  show ?thesis
    using experience_scenario[OF n, where p = "''Led a team of 5.''" and acc = "[]" and rest = "[]"
        and cur = "\<lparr>title = Some ''2019 - 2022'', company = None, dates = [], description = []\<rparr>"]
      experience_scenario[OF n, where p = "''2017 - 2018''" and acc = "[]" and rest = "[]"
        and cur = "\<lparr>title = Some ''2019 - 2022'', company = None, dates = [], description = []\<rparr>"
        and fresh = "\<lparr>title = Some ''2017 - 2018'', company = None, dates = [], description = []\<rparr>"]
      f
    by (simp add: scenario_triggers scenario_strips first_ent_def)
qed

lemma title_example:
  "extract_experience no_entities ''Dev 2019\<newline>\<newline>notes\<newline>\<newline>  Lead 2021 \<newline>Acme''
     = Inr [\<lparr>title = Some ''Dev 2019'', company = None, dates = [], description = [''notes'']\<rparr>,
            \<lparr>title = Some ''Lead 2021'', company = None, dates = [], description = []\<rparr>]"
  by code_simp

lemma title_example_triggers:
  "filter is_trigger (paragraphs ''Dev 2019\<newline>\<newline>notes\<newline>\<newline>  Lead 2021 \<newline>Acme'')
     = [''Dev 2019'', ''  Lead 2021 \<newline>Acme'']"
  by code_simp

theorem experience_title_is_first_line_witness:
  "extract_experience no_entities ''Dev 2019\<newline>\<newline>notes\<newline>\<newline>  Lead 2021 \<newline>Acme''
     = Inr [\<lparr>title = Some ''Dev 2019'', company = None, dates = [], description = [''notes'']\<rparr>,
            \<lparr>title = Some ''Lead 2021'', company = None, dates = [], description = []\<rparr>]
   \<and> filter is_trigger (paragraphs ''Dev 2019\<newline>\<newline>notes\<newline>\<newline>  Lead 2021 \<newline>Acme'')
       = [''Dev 2019'', ''  Lead 2021 \<newline>Acme'']
   \<and> map (\<lambda>p. Some (strip (hd (split p [CHR 0x0A])))) [''Dev 2019'', ''  Lead 2021 \<newline>Acme'']
       = [Some ''Dev 2019'', Some ''Lead 2021'']"
proof -
  have m: "map title
        [\<lparr>title = Some ''Dev 2019'', company = None, dates = [], description = [''notes'']\<rparr>,
         \<lparr>title = Some ''Lead 2021'', company = None, dates = [], description = []\<rparr>]
      = map (\<lambda>p. Some (strip (hd (split p [CHR 0x0A])))) [''Dev 2019'', ''  Lead 2021 \<newline>Acme'']"
    using experience_title_is_first_line[OF title_example]
    unfolding title_example_triggers by (rule conjunct1)
  have t: "map title
        [\<lparr>title = Some ''Dev 2019'', company = None, dates = [], description = [''notes'']\<rparr>,
         \<lparr>title = Some ''Lead 2021'', company = None, dates = [], description = []\<rparr>]
      = [Some ''Dev 2019'', Some ''Lead 2021'']"
    by simp
  have "map (\<lambda>p. Some (strip (hd (split p [CHR 0x0A])))) [''Dev 2019'', ''  Lead 2021 \<newline>Acme'']
      = [Some ''Dev 2019'', Some ''Lead 2021'']"
    using m[symmetric] t by (rule trans)
  then show ?thesis
    by (rule conjI[OF title_example conjI[OF title_example_triggers]])
qed

section \<open>Properties of the document builder\<close>

lemma parse_resume_body_cases:
  assumes "extract_text_from_pdf read_pdf pdf_path = text" and "text \<noteq> []"
  shows "parse_resume_body read_pdf nlp path_name now pdf_path =
     (case extract_contact_info nlp text of
        Inl e \<Rightarrow> Inl (NlpFault e)
      | Inr contact \<Rightarrow>
     (case extract_education nlp text of
        Inl e \<Rightarrow> Inl (NlpFault e)
      | Inr edu \<Rightarrow>
     (case extract_experience nlp text of
        Inl e \<Rightarrow> Inl (NlpFault e)
      | Inr exper \<Rightarrow>
          Inr [(''contact_info'', ContactInfo contact),
               (''education'', Education edu),
               (''experience'', Experience exper),
               (''metadata'', Metadata \<lparr>filename = path_name pdf_path,
                                         parsed_date = now,
                                         parser_version = ''1.0.0''\<rparr>)])))"
  using assms unfolding parse_resume_body_def by (simp add: Let_def)

text \<open>
  Claim C1: on non-empty text \<open>parse_resume\<close> returns either \<open>None\<close> or a document
  with the four keys \<open>contact_info\<close>, \<open>education\<close>, \<open>experience\<close>, \<open>metadata\<close>.
  It is a total function, so nothing escapes to the caller; whenever one of the
  three extractors fails, the result is \<open>None\<close>.
\<close>

theorem parse_resume_keys_or_None:
  assumes "extract_text_from_pdf read_pdf pdf_path = text" and "text \<noteq> []"
  shows "(parse_resume read_pdf nlp path_name now pdf_path = None
          \<or> (\<exists>d. parse_resume read_pdf nlp path_name now pdf_path = Some d
                \<and> map fst d = [''contact_info'', ''education'', ''experience'', ''metadata'']))
       \<and> ((\<exists>e. extract_contact_info nlp text = Inl e \<or> extract_education nlp text = Inl e
               \<or> extract_experience nlp text = Inl e)
            \<longrightarrow> parse_resume read_pdf nlp path_name now pdf_path = None)"
  unfolding parse_resume_def parse_resume_body_cases[OF assms]
  by (auto split: sum.splits)

lemma failing_nlp_example:
  "extract_contact_info nlp_unavailable ''Jane Doe'' = Inl ()"
  by (simp add: extract_contact_info_def nlp_unavailable_def Let_def)

lemma one_page_example:
  "extract_text_from_pdf (pdf_pages [''Jane Doe'']) ''cv.pdf'' = ''Jane Doe''"
  by (simp add: extract_text_from_pdf_def pdf_pages_def)

lemma parse_example:
  "parse_resume (pdf_pages [''Jane Doe'']) no_entities last_component ''2024-05-01T10:00:00'' ''in/cv.pdf''
   = Some [(''contact_info'', ContactInfo \<lparr>email = None, phone = None, linkedin = None,
                                           github = None, location = None\<rparr>),
           (''education'', Education []),
           (''experience'', Experience []),
           (''metadata'', Metadata \<lparr>filename = ''cv.pdf'', parsed_date = ''2024-05-01T10:00:00'',
                                     parser_version = ''1.0.0''\<rparr>)]"
  by code_simp

theorem parse_resume_keys_or_None_witness:
  "parse_resume (pdf_pages [''Jane Doe'']) nlp_unavailable last_component ''2024-05-01T10:00:00'' ''cv.pdf''
     = None
   \<and> (\<exists>d. parse_resume (pdf_pages [''Jane Doe'']) no_entities last_component
              ''2024-05-01T10:00:00'' ''in/cv.pdf'' = Some d
           \<and> map fst d = [''contact_info'', ''education'', ''experience'', ''metadata''])"
proof -
  have ne: "''Jane Doe'' \<noteq> []" by simp
  have p: "extract_text_from_pdf (pdf_pages [''Jane Doe'']) ''in/cv.pdf'' = ''Jane Doe''"
    by (simp add: extract_text_from_pdf_def pdf_pages_def)
  show ?thesis
    using parse_resume_keys_or_None[OF one_page_example ne, of nlp_unavailable last_component
        "''2024-05-01T10:00:00''"]
      parse_resume_keys_or_None[OF p ne, of no_entities last_component "''2024-05-01T10:00:00''"]
      failing_nlp_example parse_example
    by auto
qed

text \<open>
  Claim C2, as stated, fails: the guard is \<open>if not text\<close>, without trimming. A PDF
  of two blank pages gives the text of one newline, which is empty after trimming;
  it does not take the empty-input branch and is parsed into a document.
\<close>

theorem whitespace_text_is_parsed:
  "extract_text_from_pdf (pdf_pages [[], []]) ''cv.pdf'' = ''\<newline>''
   \<and> strip ''\<newline>'' = []
   \<and> parse_resume (pdf_pages [[], []]) no_entities last_component ''2024-05-01T10:00:00'' ''cv.pdf''
     = Some [(''contact_info'', ContactInfo \<lparr>email = None, phone = None, linkedin = None,
                                             github = None, location = None\<rparr>),
             (''education'', Education []),
             (''experience'', Experience []),
             (''metadata'', Metadata \<lparr>filename = ''cv.pdf'', parsed_date = ''2024-05-01T10:00:00'',
                                       parser_version = ''1.0.0''\<rparr>)]"
  by code_simp

lemma strip_nonempty: "strip s \<noteq> [] \<Longrightarrow> s \<noteq> []"
  by (auto simp: strip_def)

text \<open>
  Claim C2, amended: \<open>parse_resume\<close> fails with the empty-input error, and returns
  \<open>None\<close>, exactly when the extracted text is the empty string. For every non-empty
  text, and so for every text that is non-empty after trimming, the empty-input
  branch is not taken.
\<close>

theorem empty_text_branch:
  "(extract_text_from_pdf read_pdf pdf_path = [] \<longrightarrow>
       parse_resume_body read_pdf nlp path_name now pdf_path = Inl NoTextExtracted
       \<and> parse_resume read_pdf nlp path_name now pdf_path = None)
   \<and> (extract_text_from_pdf read_pdf pdf_path \<noteq> [] \<longrightarrow>
       parse_resume_body read_pdf nlp path_name now pdf_path \<noteq> Inl NoTextExtracted)
   \<and> (strip (extract_text_from_pdf read_pdf pdf_path) \<noteq> [] \<longrightarrow>
       parse_resume_body read_pdf nlp path_name now pdf_path \<noteq> Inl NoTextExtracted)"
proof -
  have a: "extract_text_from_pdf read_pdf pdf_path = [] \<longrightarrow>
       parse_resume_body read_pdf nlp path_name now pdf_path = Inl NoTextExtracted
       \<and> parse_resume read_pdf nlp path_name now pdf_path = None"
    by (simp add: parse_resume_def parse_resume_body_def)
  have b: "extract_text_from_pdf read_pdf pdf_path \<noteq> [] \<longrightarrow>
       parse_resume_body read_pdf nlp path_name now pdf_path \<noteq> Inl NoTextExtracted"
    by (auto simp: parse_resume_body_def Let_def split: sum.splits)
  show ?thesis using a b strip_nonempty by blast
qed

theorem empty_text_branch_witness:
  "extract_text_from_pdf unreadable_pdf ''cv.pdf'' = []
   \<and> parse_resume_body unreadable_pdf no_entities last_component ''2024-05-01T10:00:00'' ''cv.pdf''
       = Inl NoTextExtracted
   \<and> parse_resume unreadable_pdf no_entities last_component ''2024-05-01T10:00:00'' ''cv.pdf'' = None
   \<and> extract_text_from_pdf (pdf_pages ['' '']) ''cv.pdf'' = '' ''
   \<and> parse_resume_body (pdf_pages ['' '']) no_entities last_component ''2024-05-01T10:00:00'' ''cv.pdf''
       \<noteq> Inl NoTextExtracted
   \<and> strip (extract_text_from_pdf (pdf_pages [''Jane Doe'']) ''cv.pdf'') = ''Jane Doe''
   \<and> parse_resume_body (pdf_pages [''Jane Doe'']) no_entities last_component ''2024-05-01T10:00:00'' ''cv.pdf''
       \<noteq> Inl NoTextExtracted"
proof -
  have t: "extract_text_from_pdf unreadable_pdf ''cv.pdf'' = []"
    "extract_text_from_pdf (pdf_pages ['' '']) ''cv.pdf'' = '' ''"
    "extract_text_from_pdf (pdf_pages [''Jane Doe'']) ''cv.pdf'' = ''Jane Doe''"
    by (simp_all add: extract_text_from_pdf_def unreadable_pdf_def pdf_pages_def)
  have s: "strip ''Jane Doe'' = ''Jane Doe''" by code_simp
  show ?thesis
    using empty_text_branch[of unreadable_pdf "''cv.pdf''" no_entities last_component
        "''2024-05-01T10:00:00''"]
      empty_text_branch[of "pdf_pages ['' '']" "''cv.pdf''" no_entities last_component
        "''2024-05-01T10:00:00''"]
      empty_text_branch[of "pdf_pages [''Jane Doe'']" "''cv.pdf''" no_entities last_component
        "''2024-05-01T10:00:00''"]
    unfolding t s by simp
qed

text \<open>
  Claim C9: two parses of the same document, by the same recogniser, that differ only
  in the clock reading either both fail or return documents that agree in the contact
  record, the education and experience lists, the file name and the version tag
  \<open>1.0.0\<close>; only \<open>parsed_date\<close> carries the respective clock reading.
\<close>

theorem parse_resume_equal_but_timestamp:
  "(parse_resume read_pdf nlp path_name now1 pdf_path = None
    \<and> parse_resume read_pdf nlp path_name now2 pdf_path = None)
   \<or> (\<exists>contact edu exper name.
        parse_resume read_pdf nlp path_name now1 pdf_path
          = Some [(''contact_info'', ContactInfo contact), (''education'', Education edu),
                  (''experience'', Experience exper),
                  (''metadata'', Metadata \<lparr>filename = name, parsed_date = now1,
                                            parser_version = ''1.0.0''\<rparr>)]
      \<and> parse_resume read_pdf nlp path_name now2 pdf_path
          = Some [(''contact_info'', ContactInfo contact), (''education'', Education edu),
                  (''experience'', Experience exper),
                  (''metadata'', Metadata \<lparr>filename = name, parsed_date = now2,
                                            parser_version = ''1.0.0''\<rparr>)])"
  unfolding parse_resume_def parse_resume_body_def
  by (auto simp: Let_def split: sum.splits)

theorem parse_resume_equal_but_timestamp_witness:
  "\<exists>contact edu exper name.
        parse_resume (pdf_pages [''Jane Doe'']) no_entities last_component ''2024-05-01T10:00:00'' ''in/cv.pdf''
          = Some [(''contact_info'', ContactInfo contact), (''education'', Education edu),
                  (''experience'', Experience exper),
                  (''metadata'', Metadata \<lparr>filename = name, parsed_date = ''2024-05-01T10:00:00'',
                                            parser_version = ''1.0.0''\<rparr>)]
      \<and> parse_resume (pdf_pages [''Jane Doe'']) no_entities last_component ''2024-05-02T11:30:00'' ''in/cv.pdf''
          = Some [(''contact_info'', ContactInfo contact), (''education'', Education edu),
                  (''experience'', Experience exper),
                  (''metadata'', Metadata \<lparr>filename = name, parsed_date = ''2024-05-02T11:30:00'',
                                            parser_version = ''1.0.0''\<rparr>)]"
  using parse_resume_equal_but_timestamp[of "pdf_pages [''Jane Doe'']" no_entities last_component
      "''2024-05-01T10:00:00''" "''in/cv.pdf''" "''2024-05-02T11:30:00''"]
    parse_example
  by simp

section \<open>Date matches\<close>

lemma finditer_Nil_iff:
  "finditer r s pos = [] \<longleftrightarrow> (\<forall>j. pos \<le> j \<and> j \<le> length s \<longrightarrow> ends r s j = [])"
proof -
  have "finditer r s pos = [] \<longleftrightarrow> search r s pos = None"
    by (subst finditer.simps) (auto split: option.splits)
  then show ?thesis by (simp add: search_None_iff)
qed

lemma finditer_spans:
  "m \<in> set (finditer r s pos) \<Longrightarrow>
     pos \<le> fst m \<and> fst m \<le> length s \<and> ends r s (fst m) \<noteq> [] \<and> snd m = hd (ends r s (fst m))"
proof (induction r s pos rule: finditer.induct)
  case (1 r s pos)
  show ?case
  proof (cases "search r s pos")
    case None
    then show ?thesis using 1(2) by (subst (asm) finditer.simps) simp
  next
    case (Some x)
    obtain i e where x: "x = (i, e)" by (cases x)
    have sr: "search r s pos = Some (i, e)" using Some x by simp
    then have ie: "pos \<le> i" "i \<le> length s" "ends r s i \<noteq> []" "e = hd (ends r s i)"
      by (simp_all add: search_Some_iff)
    have "m = (i, e) \<or> m \<in> set (finditer r s (if i < e then e else Suc i))"
      using 1(2) sr by (subst (asm) finditer.simps) auto
    then show ?thesis
    proof
      assume "m = (i, e)"
      then show ?thesis using ie by simp
    next
      assume "m \<in> set (finditer r s (if i < e then e else Suc i))"
      then have "(if i < e then e else Suc i) \<le> fst m \<and> fst m \<le> length s
          \<and> ends r s (fst m) \<noteq> [] \<and> snd m = hd (ends r s (fst m))"
        using 1(1)[OF sr refl] by simp
      then show ?thesis using ie by (auto split: if_splits)
    qed
  qed
qed

lemma finditer_last:
  "finditer r s pos \<noteq> [] \<Longrightarrow>
     (\<forall>j. (if fst (last (finditer r s pos)) < snd (last (finditer r s pos))
            then snd (last (finditer r s pos)) else Suc (fst (last (finditer r s pos)))) \<le> j
          \<and> j \<le> length s \<longrightarrow> ends r s j = [])"
proof (induction r s pos rule: finditer.induct)
  case (1 r s pos)
  from 1(2) obtain i e where sr: "search r s pos = Some (i, e)"
    by (subst (asm) finditer.simps) (auto split: option.splits)
  let ?next = "if i < e then e else Suc i"
  have eq: "finditer r s pos = (i, e) # finditer r s ?next"
    using sr by (subst finditer.simps) simp
  show ?case
  proof (cases "finditer r s ?next = []")
    case True
    then have "last (finditer r s pos) = (i, e)" using eq by simp
    then show ?thesis using True finditer_Nil_iff[of r s ?next] by simp
  next
    case False
    then have "last (finditer r s pos) = last (finditer r s ?next)" using eq by simp
    then show ?thesis using 1(1)[OF sr refl False] by simp
  qed
qed

lemma startswith_nth:
  assumes "startswith (drop i s) w" and "k < length w"
  shows "i + k < length s \<and> s ! (i + k) = w ! k"
proof -
  have t: "take (length w) (drop i s) = w" using assms(1) by (simp add: startswith_def)
  then have "length (take (length w) (drop i s)) = length w" by simp
  then have len: "length w \<le> length s - i" by simp
  then have lt: "i + k < length s" using assms(2) by linarith
  have "w ! k = take (length w) (drop i s) ! k" using t by simp
  also have "\<dots> = drop i s ! k" using assms(2) by simp
  also have "\<dots> = s ! (i + k)" using lt by simp
  finally show ?thesis using lt by simp
qed

lemma startswith_append_iff:
  "startswith xs (a @ b) \<longleftrightarrow> startswith xs a \<and> startswith (drop (length a) xs) b"
proof (induction a arbitrary: xs)
  case Nil
  then show ?case by simp
next
  case (Cons c a)
  show ?case
  proof (cases xs)
    case Nil
    then show ?thesis by (simp add: startswith_def)
  next
    case (Cons y ys)
    then show ?thesis using Cons.IH[of ys] by (auto simp: startswith_Cons)
  qed
qed

lemma ends_month:
  assumes "m \<in> set (ends (month abbr rest) s i)"
  shows "(startswith (drop i s) abbr \<and> m = i + length abbr)
       \<or> (startswith (drop i s) (abbr @ rest) \<and> m = i + length (abbr @ rest))"
  using assms unfolding month_def
  by (auto simp: startswith_append_iff add.commute split: if_splits)

lemma ends_Lit:
  "m \<in> set (ends (Lit w) s i) \<longleftrightarrow> startswith (drop i s) w \<and> m = i + length w"
  by auto

lemma ends_Rep_run:
  assumes "n \<in> set (ends (Rep P lo hi) s m)"
  shows "m + lo \<le> n \<and> (\<forall>j. m \<le> j \<and> j < n \<longrightarrow> j < length s \<and> P (s ! j))"
proof -
  let ?run = "length (takeWhile P (drop m s))"
  from assms have n: "m + lo \<le> n" "n \<le> m + ?run"
    by (auto simp: Let_def split: if_splits option.splits)
  have "\<forall>j. m \<le> j \<and> j < n \<longrightarrow> j < length s \<and> P (s ! j)"
  proof (intro allI impI)
    fix j assume j: "m \<le> j \<and> j < n"
    then have k: "j - m < ?run" using n by linarith
    then have "P (takeWhile P (drop m s) ! (j - m))"
      using nth_mem set_takeWhileD by metis
    moreover have "takeWhile P (drop m s) ! (j - m) = drop m s ! (j - m)"
      using k by (rule takeWhile_nth)
    moreover have "j - m < length (drop m s)"
      using k length_takeWhile_le[of P "drop m s"] by linarith
    ultimately show "j < length s \<and> P (s ! j)" using j by simp
  qed
  then show ?thesis using n by simp
qed

lemma ends_Seq_iff:
  "e \<in> set (ends (Seq a b) s i) \<longleftrightarrow> (\<exists>m \<in> set (ends a s i). e \<in> set (ends b s m))"
  by auto

lemma starts_word_append: "starts_word w \<Longrightarrow> capital_free r \<Longrightarrow> starts_word (w @ r)"
  unfolding starts_word_def capital_free_def by (cases w) auto

lemma month_like_ends:
  "month_like r \<Longrightarrow> m \<in> set (ends r s i) \<Longrightarrow>
     \<exists>w. starts_word w \<and> startswith (drop i s) w \<and> m = i + length w"
proof (induction r arbitrary: m rule: month_like.induct)
  case (1 w)
  then show ?case by (auto split: if_splits)
next
  case (2 w r)
  from 2(2) have "m \<in> set (ends (month w r) s i)" unfolding month_def .
  then have "(startswith (drop i s) w \<and> m = i + length w)
       \<or> (startswith (drop i s) (w @ r) \<and> m = i + length (w @ r))"
    by (rule ends_month)
  then show ?case using 2(1) starts_word_append[of w r] by auto
next
  case (3 a b)
  then show ?case by auto
qed simp_all

lemma months_month_like:
  "month_like (alts [month ''Jan'' ''uary'', month ''Feb'' ''ruary'', month ''Mar'' ''ch'',
            month ''Apr'' ''il'', Lit ''May'', month ''Jun'' ''e'', month ''Jul'' ''y'',
            month ''Aug'' ''ust'', month ''Sep'' ''tember'', month ''Oct'' ''ober'',
            month ''Nov'' ''ember'', month ''Dec'' ''ember''])"
  by code_simp

lemma ends_DATE:
  assumes "e \<in> set (ends DATE_PATTERN s i)"
  shows "\<exists>w. starts_word w \<and> startswith (drop i s) w \<and> i + length w < e
           \<and> (\<forall>j. i + length w \<le> j \<and> j < e \<longrightarrow> j < length s \<and> (isspace (s ! j) \<or> isdigit (s ! j)))"
proof -
  let ?months = "alts [month ''Jan'' ''uary'', month ''Feb'' ''ruary'', month ''Mar'' ''ch'',
            month ''Apr'' ''il'', Lit ''May'', month ''Jun'' ''e'', month ''Jul'' ''y'',
            month ''Aug'' ''ust'', month ''Sep'' ''tember'', month ''Oct'' ''ober'',
            month ''Nov'' ''ember'', month ''Dec'' ''ember'']"
  have dp: "DATE_PATTERN = Seq ?months (Seq (Rep isspace 1 None) (Rep isdigit 4 (Some 4)))"
    unfolding DATE_PATTERN_def by (simp only: cat.simps)
  from assms have "e \<in> set (ends (Seq ?months (Seq (Rep isspace 1 None) (Rep isdigit 4 (Some 4)))) s i)"
    by (simp only: dp)
  then obtain m n where m: "m \<in> set (ends ?months s i)"
    and n: "n \<in> set (ends (Rep isspace 1 None) s m)"
    and e: "e \<in> set (ends (Rep isdigit 4 (Some 4)) s n)"
    unfolding ends_Seq_iff by blast
  obtain w where w: "starts_word w" "startswith (drop i s) w" "m = i + length w"
    using month_like_ends[OF months_month_like m] by blast
  have sp: "m + 1 \<le> n" "\<forall>j. m \<le> j \<and> j < n \<longrightarrow> j < length s \<and> isspace (s ! j)"
    using ends_Rep_run[OF n] by simp_all
  have dg: "n + 4 \<le> e" "\<forall>j. n \<le> j \<and> j < e \<longrightarrow> j < length s \<and> isdigit (s ! j)"
    using ends_Rep_run[OF e] by simp_all
  have "\<forall>j. i + length w \<le> j \<and> j < e \<longrightarrow> j < length s \<and> (isspace (s ! j) \<or> isdigit (s ! j))"
  proof (intro allI impI)
    fix j assume j: "i + length w \<le> j \<and> j < e"
    show "j < length s \<and> (isspace (s ! j) \<or> isdigit (s ! j))"
    proof (cases "j < n")
      case True
      then show ?thesis using sp(2) j w(3) by simp
    next
      case False
      then show ?thesis using dg(2) j by simp
    qed
  qed
  moreover have "i + length w < e" using sp(1) dg(1) w(3) by linarith
  ultimately show ?thesis using w by blast
qed

lemma month_capital_not_space_digit: "month_capital c \<Longrightarrow> \<not> isspace c \<and> \<not> isdigit c"
  unfolding month_capital_def isspace_def isdigit_def in_range_def ord_def by auto

lemma date_match_nonempty: "e \<in> set (ends DATE_PATTERN s i) \<Longrightarrow> i < e"
  using ends_DATE by fastforce

lemma date_match_start:
  assumes "ends DATE_PATTERN s j \<noteq> []"
  shows "j < length s \<and> month_capital (s ! j)"
proof -
  from assms obtain e where "e \<in> set (ends DATE_PATTERN s j)"
    by (cases "ends DATE_PATTERN s j") auto
  then obtain w where w: "starts_word w" "startswith (drop j s) w" using ends_DATE by blast
  then obtain c cs where c: "w = c # cs" "month_capital c"
    unfolding starts_word_def by (cases w) auto
  then have "j + 0 < length s \<and> s ! (j + 0) = w ! 0"
    using startswith_nth[OF w(2), of 0] by simp
  then show ?thesis using c by simp
qed

lemma date_match_inside:
  assumes "e \<in> set (ends DATE_PATTERN s i)" and "i < j" and "j < e"
  shows "\<not> month_capital (s ! j)"
proof -
  obtain w where w: "starts_word w" "startswith (drop i s) w"
    "\<forall>k. i + length w \<le> k \<and> k < e \<longrightarrow> k < length s \<and> (isspace (s ! k) \<or> isdigit (s ! k))"
    using ends_DATE[OF assms(1)] by blast
  show ?thesis
  proof (cases "j < i + length w")
    case True
    then have k: "j - i < length w" "0 < j - i" using assms(2) by linarith+
    then have "s ! (i + (j - i)) = w ! (j - i)" using startswith_nth[OF w(2)] by blast
    then have sj: "s ! j = w ! (j - i)" using assms(2) by simp
    obtain c cs where c: "w = c # cs" "capital_free cs"
      using w(1) unfolding starts_word_def by (cases w) auto
    then have "w ! (j - i) \<in> set cs" using k by (cases "j - i") auto
    then show ?thesis using c(2) sj unfolding capital_free_def by (simp add: list_all_iff)
  next
    case False
    then have "isspace (s ! j) \<or> isdigit (s ! j)" using w(3) assms(3) by simp
    then show ?thesis using month_capital_not_space_digit by blast
  qed
qed

lemma date_matches_do_not_overlap:
  assumes "e \<in> set (ends DATE_PATTERN s i)" and "i < j" and "j < e"
  shows "ends DATE_PATTERN s j = []"
  using date_match_inside[OF assms] date_match_start[of s j] by blast

lemma findall_dates_last:
  "is_last_match DATE_PATTERN p
     (if findall DATE_PATTERN p \<noteq> [] then Some (last (findall DATE_PATTERN p)) else None)"
proof (cases "finditer DATE_PATTERN p 0 = []")
  case True
  then have "\<forall>i. i \<le> length p \<longrightarrow> ends DATE_PATTERN p i = []"
    using finditer_Nil_iff[of DATE_PATTERN p 0] by simp
  then show ?thesis using True by (simp add: findall_def is_last_match_def)
next
  case False
  let ?ms = "finditer DATE_PATTERN p 0"
  obtain i e where ie: "last ?ms = (i, e)" by (cases "last ?ms")
  have "(i, e) \<in> set ?ms" using False ie last_in_set by metis
  then have sp: "i \<le> length p" "ends DATE_PATTERN p i \<noteq> []" "e = hd (ends DATE_PATTERN p i)"
    using finditer_spans[of "(i, e)" DATE_PATTERN p 0] by simp_all
  then have mem: "e \<in> set (ends DATE_PATTERN p i)" by simp
  then have lt: "i < e" by (rule date_match_nonempty)
  have after: "\<forall>j. e \<le> j \<and> j \<le> length p \<longrightarrow> ends DATE_PATTERN p j = []"
    using finditer_last[OF False] ie lt by simp
  have none_later: "\<forall>j. i < j \<and> j \<le> length p \<longrightarrow> ends DATE_PATTERN p j = []"
  proof (intro allI impI)
    fix j assume j: "i < j \<and> j \<le> length p"
    show "ends DATE_PATTERN p j = []"
    proof (cases "j < e")
      case True
      then show ?thesis using date_matches_do_not_overlap[OF mem] j by simp
    next
      case False
      then show ?thesis using after j by simp
    qed
  qed
  have "last (findall DATE_PATTERN p) = match_group p (i, hd (ends DATE_PATTERN p i))"
    unfolding findall_def using False ie sp(3) by (simp add: last_map)
  then show ?thesis
    unfolding is_last_match_def using False sp none_later by (auto simp: findall_def)
qed

text \<open>
  Claim C8: the graduation date of the entry built from an education paragraph is
  the last match of the date pattern in the paragraph, and \<open>None\<close> when the pattern
  does not match. The paragraph of the scenario yields one entry, with the
  graduation date \<open>May 2020\<close>.
\<close>

theorem graduation_date_is_last_match:
  assumes "education_entry nlp paragraph = Inr info"
  shows "is_last_match DATE_PATTERN paragraph (graduation_date info)
       \<and> (paragraph = ''Bachelor of Science in Computer Science\<newline>State University\<newline>May 2020''
            \<longrightarrow> graduation_date info = Some ''May 2020''
              \<and> extract_education nlp paragraph = Inr [info])"
proof -
  from assms have g: "graduation_date info
      = (if findall DATE_PATTERN paragraph \<noteq> [] then Some (last (findall DATE_PATTERN paragraph)) else None)"
    and d: "degree info = map_option strip (List.find has_education_term (split paragraph [CHR 0x0A]))"
    unfolding education_entry_def by (auto simp: Let_def split: sum.splits)
  have a: "is_last_match DATE_PATTERN paragraph (graduation_date info)"
    unfolding g by (rule findall_dates_last)
  have b: "graduation_date info = Some ''May 2020'' \<and> extract_education nlp paragraph = Inr [info]"
    if p: "paragraph = ''Bachelor of Science in Computer Science\<newline>State University\<newline>May 2020''"
  proof -
    have ex: "findall DATE_PATTERN ''Bachelor of Science in Computer Science\<newline>State University\<newline>May 2020''
        = [''May 2020'']"
      "paragraphs ''Bachelor of Science in Computer Science\<newline>State University\<newline>May 2020''
        = [''Bachelor of Science in Computer Science\<newline>State University\<newline>May 2020'']"
      "has_education_term ''Bachelor of Science in Computer Science\<newline>State University\<newline>May 2020''"
      "map_option strip (List.find has_education_term
          (split ''Bachelor of Science in Computer Science\<newline>State University\<newline>May 2020'' [CHR 0x0A]))
        = Some ''Bachelor of Science in Computer Science''"
      by code_simp+
    have "graduation_date info = Some ''May 2020''" using g unfolding p ex by simp
    moreover have "truthy (degree info)" using d unfolding p ex by simp
    then have "extract_education nlp paragraph = Inr [info]"
      using assms ex(3) unfolding extract_education_def p ex(2) by simp
    ultimately show ?thesis by simp
  qed
  show ?thesis using a b by blast
qed

theorem graduation_date_is_last_match_witness:
  "education_entry no_entities ''Bachelor of Science in Computer Science\<newline>State University\<newline>May 2020''
     = Inr \<lparr>degree = Some ''Bachelor of Science in Computer Science'', institution = None,
            graduation_date = Some ''May 2020'', gpa = None\<rparr>
   \<and> is_last_match DATE_PATTERN
        ''Bachelor of Science in Computer Science\<newline>State University\<newline>May 2020''
        (Some ''May 2020'')
   \<and> extract_education no_entities
        ''Bachelor of Science in Computer Science\<newline>State University\<newline>May 2020''
     = Inr [\<lparr>degree = Some ''Bachelor of Science in Computer Science'', institution = None,
             graduation_date = Some ''May 2020'', gpa = None\<rparr>]"
proof -
  have e: "education_entry no_entities
      ''Bachelor of Science in Computer Science\<newline>State University\<newline>May 2020''
     = Inr \<lparr>degree = Some ''Bachelor of Science in Computer Science'', institution = None,
            graduation_date = Some ''May 2020'', gpa = None\<rparr>"
    by code_simp
  show ?thesis using graduation_date_is_last_match[OF e] e by simp
qed

end
